theory Spec2Isabelle
  imports Complex_Main "HOL-Library.AList"
begin

section \<open>Room state of a Matrix room (lib/models/room-state.js)\<close>

text \<open>
  Every function below keeps the name it has in the source; \<open>_setPowerLevel\<close> is
  \<open>setPowerLevel\<close> and the constructor is \<open>new_RoomState\<close>.
\<close>

text \<open>
  The store folds state events into two dictionaries: \<open>stateEvents\<close>, keyed on the event
  type and then on the state key, and \<open>members\<close>, keyed on the user identifier. A JavaScript
  object used as a dictionary is an association list here: \<open>map_of\<close> reads a key,
  \<open>AList.update\<close> writes one (in place when the key exists, at the end otherwise, which is
  the enumeration order of keys that are not array indices), and the values are enumerated
  in list order. Keys are plain strings; names inherited from \<open>Object.prototype\<close> are not
  modelled.

  JavaScript numbers are IEEE 754 doubles. A level read from an event is a rational, the
  value of a finite double; comparison, \<open>Math.max\<close> and \<open>||\<close> are exact on these. The
  product and the quotient of \<open>_setPowerLevel\<close> are rounded to the nearest double, ties to
  even, and overflow to an infinity. Negative zero is not told from zero. A field that is
  \<open>undefined\<close> is \<open>None\<close>.
\<close>

subsection \<open>Events\<close>

text \<open>
  The value of the \<open>user_ids\<close> field of a typing event: missing, some value that is not an
  array (kept as text), or an array of user identifiers.
\<close>

datatype typing_list = Absent | Scalar string | Ids "string list"

text \<open>
  The fields of an event's content that the store reads, in the shapes the protocol gives
  them: \<open>users\<close> is missing or a dictionary from user identifier to a number,
  \<open>users_default\<close> is missing or a number. Other JSON values in these two fields (a null, a
  text for a level) are outside the model. \<open>membership\<close> is carried along and never read.
\<close>

record Content =
  users :: "(string \<times> rat) list option"
  users_default :: "rat option"
  user_ids :: typing_list
  membership :: "string option"

record MatrixEvent =
  room_id :: string
  event_type :: string
  state_key :: "string option"
  content :: Content

text \<open>
  Modelled from the spec: the event accessors of \<open>MatrixEvent\<close> (the class is not in
  lib/models/room-state.js). An event gives its room identifier, its type, its state key
  (undefined for a timeline event), whether it is a state event, and its content.
\<close>

definition getRoomId :: "MatrixEvent \<Rightarrow> string" where
  "getRoomId e = room_id e"

definition getType :: "MatrixEvent \<Rightarrow> string" where
  "getType e = event_type e"

definition getStateKey :: "MatrixEvent \<Rightarrow> string option" where
  "getStateKey e = state_key e"

definition isState :: "MatrixEvent \<Rightarrow> bool" where
  "isState e = (state_key e \<noteq> None)"

definition getContent :: "MatrixEvent \<Rightarrow> Content" where
  "getContent e = content e"

text \<open>A value used as a property name: \<open>undefined\<close> becomes the name "undefined".\<close>

fun prop_key :: "string option \<Rightarrow> string" where
  "prop_key None = ''undefined''"
| "prop_key (Some k) = k"

subsection \<open>Numbers\<close>

text \<open>The result of an arithmetic operation: a finite double, an infinity or NaN.\<close>

datatype jsnum = Finite rat | PosInf | NegInf | NaN

text \<open>The nearest integer, a tie going to the even one.\<close>

definition round_half_even :: "rat \<Rightarrow> int" where
  "round_half_even y =
     (let f = \<lfloor>y\<rfloor>; d = y - of_int f
      in if d < 1 / 2 then f
         else if 1 / 2 < d then f + 1
         else if even f then f else f + 1)"

text \<open>
  The exponent of a positive number in the double format: the first \<open>e\<close> from -1022 on
  (the exponent of the subnormal numbers) with \<open>a < 2 ^ (e + 1)\<close>, and 1024 when there is
  none up to 1023 (the number is beyond every double).
\<close>

fun binade_from :: "nat \<Rightarrow> int \<Rightarrow> rat \<Rightarrow> int" where
  "binade_from 0 e a = e"
| "binade_from (Suc n) e a = (if a < 2 powi (e + 1) then e else binade_from n (e + 1) a)"

definition binade :: "rat \<Rightarrow> int" where
  "binade a = binade_from 2046 (- 1022) a"

text \<open>
  Rounding to a double: the magnitude is rounded to a multiple of the spacing
  \<open>2 ^ (e - 52)\<close> of its exponent, and a result of \<open>2 ^ 1024\<close> or more is an infinity.
\<close>

definition round_double :: "rat \<Rightarrow> jsnum" where
  "round_double x =
     (if x = 0 then Finite 0
      else
        let a = \<bar>x\<bar>;
            u = 2 powi (binade a - 52);
            r = of_int (round_half_even (a / u)) * u
        in if 2 powi 1024 \<le> r then (if 0 < x then PosInf else NegInf)
           else Finite (if 0 < x then r else - r))"

text \<open>\<open>x * y\<close> on two finite doubles, and \<open>x / y\<close> with a finite divisor.\<close>

definition js_times :: "rat \<Rightarrow> rat \<Rightarrow> jsnum" where
  "js_times x y = round_double (x * y)"

fun js_divide :: "jsnum \<Rightarrow> rat \<Rightarrow> jsnum" where
  "js_divide (Finite x) y =
     (if y = 0 then (if x = 0 then NaN else if 0 < x then PosInf else NegInf)
      else round_double (x / y))"
| "js_divide PosInf y = (if 0 \<le> y then PosInf else NegInf)"
| "js_divide NegInf y = (if 0 \<le> y then NegInf else PosInf)"
| "js_divide NaN y = NaN"

text \<open>\<open>x <= y\<close> on results: false as soon as one side is NaN.\<close>

fun js_le :: "jsnum \<Rightarrow> jsnum \<Rightarrow> bool" where
  "js_le NaN _ = False"
| "js_le _ NaN = False"
| "js_le NegInf _ = True"
| "js_le _ PosInf = True"
| "js_le (Finite x) (Finite y) = (x \<le> y)"
| "js_le _ _ = False"

subsection \<open>Members and the store\<close>

record RoomMember =
  userId :: string
  displayName :: string
  typing :: bool
  powerLevel :: rat
  powerLevelNorm :: jsnum

record RoomState =
  roomId :: string
  members :: "(string \<times> RoomMember) list"
  stateEvents :: "(string \<times> (string \<times> MatrixEvent) list) list"
  paginationToken :: "string option"

definition new_RoomState :: "string \<Rightarrow> RoomState" where
  "new_RoomState rid =
     \<lparr>roomId = rid, members = [], stateEvents = [], paginationToken = None\<rparr>"

text \<open>
  Modelled from the spec: the constructor of \<open>RoomMember\<close> and its \<open>calculateDisplayName\<close>
  (lib/models/room-member.js is not in the source). The record is made for the event's state
  key as the user identifier, not typing, with both power metrics 0; the display name comes
  from the naming collaborator, a parameter \<open>dn\<close> of the fold that sees the membership event
  and the store.
\<close>

definition new_RoomMember :: "MatrixEvent \<Rightarrow> RoomMember" where
  "new_RoomMember e =
     \<lparr>userId = prop_key (getStateKey e), displayName = prop_key (getStateKey e),
      typing = False, powerLevel = 0, powerLevelNorm = Finite 0\<rparr>"

definition calculateDisplayName ::
  "(MatrixEvent \<Rightarrow> RoomState \<Rightarrow> string) \<Rightarrow> MatrixEvent \<Rightarrow> RoomState \<Rightarrow> RoomMember \<Rightarrow> RoomMember"
where
  "calculateDisplayName dn e s m = m\<lparr>displayName := dn e s\<rparr>"

text \<open>
  Modelled from the spec: the helpers of lib/utils.js, which is not in the source.
  \<open>utils.values\<close> lists the values of a dictionary (none for \<open>undefined\<close>) and
  \<open>utils.isArray\<close> tells an array from every other value; \<open>utils.forEach\<close> is the recursion
  of the functions below.
\<close>

definition utils_values :: "('k \<times> 'v) list \<Rightarrow> 'v list" where
  "utils_values obj = map snd obj"

fun utils_isArray :: "typing_list \<Rightarrow> bool" where
  "utils_isArray (Ids _) = True"
| "utils_isArray _ = False"

subsection \<open>Failures\<close>

text \<open>
  A call either returns or throws; in both cases the store is left as the call had changed
  it so far, and the caller goes on with that store.
\<close>

datatype error = TypeError | Error string

datatype 'a outcome = Returned 'a | Threw error 'a

fun store_of :: "'a outcome \<Rightarrow> 'a" where
  "store_of (Returned s) = s"
| "store_of (Threw _ s) = s"

fun has_thrown :: "'a outcome \<Rightarrow> bool" where
  "has_thrown (Returned _) = False"
| "has_thrown (Threw _ _) = True"

subsection \<open>getStateEvents\<close>

datatype query_result = Events "MatrixEvent list" | Event MatrixEvent | Null

definition getStateEvents :: "RoomState \<Rightarrow> string \<Rightarrow> string option \<Rightarrow> query_result" where
  "getStateEvents s eventType stateKey =
     (case map_of (stateEvents s) eventType of
        None \<Rightarrow> (if stateKey = None then Events [] else Null)
      | Some byKey \<Rightarrow>
          (case stateKey of
             None \<Rightarrow> Events (utils_values byKey)
           | Some k \<Rightarrow> (case map_of byKey k of Some event \<Rightarrow> Event event | None \<Rightarrow> Null)))"

subsection \<open>The power-level projection\<close>

text \<open>\<open>a || b\<close> on numbers that may be undefined: 0 and undefined are falsy.\<close>

fun truthy :: "rat option \<Rightarrow> bool" where
  "truthy None = False"
| "truthy (Some n) = (n \<noteq> 0)"

definition js_or :: "rat option \<Rightarrow> rat option \<Rightarrow> rat option" where
  "js_or a b = (if truthy a then a else b)"

fun or_zero :: "rat option \<Rightarrow> rat" where
  "or_zero None = 0"
| "or_zero (Some n) = (if n \<noteq> 0 then n else 0)"

text \<open>The loop of \<open>_setPowerLevel\<close> over the listed levels.\<close>

fun max_over :: "rat \<Rightarrow> rat list \<Rightarrow> rat" where
  "max_over maxLevel [] = maxLevel"
| "max_over maxLevel (lvl # lvls) = max_over (max maxLevel lvl) lvls"

definition maxLevel_of :: "MatrixEvent \<Rightarrow> rat" where
  "maxLevel_of powerLevelEvent =
     max_over (or_zero (users_default (getContent powerLevelEvent)))
       (case users (getContent powerLevelEvent) of
          None \<Rightarrow> []
        | Some us \<Rightarrow> utils_values us)"

text \<open>
  Reading \<open>users[userId]\<close> throws a TypeError when \<open>users\<close> is undefined; nothing has been
  written on the member by then.
\<close>

definition setPowerLevel :: "MatrixEvent \<Rightarrow> RoomMember \<Rightarrow> error + RoomMember" where
  "setPowerLevel powerLevelEvent roomMember =
     (let maxLevel = maxLevel_of powerLevelEvent in
      case users (getContent powerLevelEvent) of
        None \<Rightarrow> Inl TypeError
      | Some us \<Rightarrow>
          (let m1 = roomMember\<lparr>powerLevel :=
                       or_zero (js_or (map_of us (userId roomMember))
                                      (users_default (getContent powerLevelEvent)))\<rparr>;
               m2 = m1\<lparr>powerLevelNorm := Finite 0\<rparr>
           in Inr (if maxLevel > 0
                   then m2\<lparr>powerLevelNorm :=
                          js_divide (js_times (powerLevel m2) 100) maxLevel\<rparr>
                   else m2)))"

text \<open>
  The pass over every member on a power-levels event. A throw leaves the members already
  visited as they were rewritten and the others untouched.
\<close>

fun setPowerLevel_each ::
  "MatrixEvent \<Rightarrow> (string \<times> RoomMember) list \<Rightarrow> (string \<times> RoomMember) list outcome"
where
  "setPowerLevel_each ev [] = Returned []"
| "setPowerLevel_each ev ((k, member) # rest) =
     (case setPowerLevel ev member of
        Inl err \<Rightarrow> Threw err ((k, member) # rest)
      | Inr member' \<Rightarrow>
          (case setPowerLevel_each ev rest of
             Returned rest' \<Rightarrow> Returned ((k, member') # rest')
           | Threw err rest' \<Rightarrow> Threw err ((k, member') # rest')))"

subsection \<open>setStateEvents\<close>

definition put_state_event ::
  "MatrixEvent \<Rightarrow> (string \<times> (string \<times> MatrixEvent) list) list
     \<Rightarrow> (string \<times> (string \<times> MatrixEvent) list) list"
where
  "put_state_event event se =
     (let byKey = (case map_of se (getType event) of None \<Rightarrow> [] | Some b \<Rightarrow> b)
      in AList.update (getType event)
           (AList.update (prop_key (getStateKey event)) event byKey) se)"

text \<open>The body of the loop of \<open>setStateEvents\<close>, for one event.\<close>

definition fold_state_event ::
  "(MatrixEvent \<Rightarrow> RoomState \<Rightarrow> string) \<Rightarrow> RoomState \<Rightarrow> MatrixEvent \<Rightarrow> RoomState outcome"
where
  "fold_state_event dn self event =
     (if getRoomId event \<noteq> roomId self then Returned self
      else if \<not> isState event then Returned self
      else
        let s1 = self\<lparr>stateEvents := put_state_event event (stateEvents self)\<rparr> in
        if getType event = ''m.room.member'' then
          (let member = calculateDisplayName dn event s1 (new_RoomMember event);
               s2 = s1\<lparr>members :=
                      AList.update (prop_key (getStateKey event)) member (members s1)\<rparr>
           in case getStateEvents s2 ''m.room.power_levels'' (Some '''') of
                Event pwrLvlEvent \<Rightarrow>
                  (case setPowerLevel pwrLvlEvent member of
                     Inl err \<Rightarrow> Threw err s2
                   | Inr member' \<Rightarrow>
                       Returned (s2\<lparr>members :=
                         AList.update (prop_key (getStateKey event)) member' (members s2)\<rparr>))
              | _ \<Rightarrow> Returned s2)
        else if getType event = ''m.room.power_levels'' then
          (case setPowerLevel_each event (members s1) of
             Returned ms \<Rightarrow> Returned (s1\<lparr>members := ms\<rparr>)
           | Threw err ms \<Rightarrow> Threw err (s1\<lparr>members := ms\<rparr>))
        else Returned s1)"

fun setStateEvents ::
  "(MatrixEvent \<Rightarrow> RoomState \<Rightarrow> string) \<Rightarrow> RoomState \<Rightarrow> MatrixEvent list \<Rightarrow> RoomState outcome"
where
  "setStateEvents dn self [] = Returned self"
| "setStateEvents dn self (event # events) =
     (case fold_state_event dn self event of
        Returned self' \<Rightarrow> setStateEvents dn self' events
      | Threw err self' \<Rightarrow> Threw err self')"

subsection \<open>setTypingEvent\<close>

definition reset_typing :: "(string \<times> RoomMember) list \<Rightarrow> (string \<times> RoomMember) list" where
  "reset_typing ms = map (\<lambda>(k, member). (k, member\<lparr>typing := False\<rparr>)) ms"

fun mark_typing :: "(string \<times> RoomMember) list \<Rightarrow> string list \<Rightarrow> (string \<times> RoomMember) list" where
  "mark_typing ms [] = ms"
| "mark_typing ms (uid # uids) =
     (if map_of ms uid = None then mark_typing ms uids
      else mark_typing (AList.map_entry uid (\<lambda>member. member\<lparr>typing := True\<rparr>) ms) uids)"

definition setTypingEvent :: "RoomState \<Rightarrow> MatrixEvent \<Rightarrow> RoomState outcome" where
  "setTypingEvent self event =
     (if getType event \<noteq> ''m.typing''
      then Threw (Error (''Not a typing event -> '' @ getType event)) self
      else
        let s1 = self\<lparr>members := reset_typing (members self)\<rparr>;
            typingList = user_ids (getContent event)
        in if \<not> utils_isArray typingList then Returned s1
           else (case typingList of
                   Ids uids \<Rightarrow> Returned (s1\<lparr>members := mark_typing (members s1) uids\<rparr>)
                 | _ \<Rightarrow> Returned s1))"

subsection \<open>Sequences of calls\<close>

datatype store_call = SetStateEvents "MatrixEvent list" | SetTypingEvent MatrixEvent

fun call_store ::
  "(MatrixEvent \<Rightarrow> RoomState \<Rightarrow> string) \<Rightarrow> RoomState \<Rightarrow> store_call \<Rightarrow> RoomState"
where
  "call_store dn s (SetStateEvents evs) = store_of (setStateEvents dn s evs)"
| "call_store dn s (SetTypingEvent ev) = store_of (setTypingEvent s ev)"

definition run_calls ::
  "(MatrixEvent \<Rightarrow> RoomState \<Rightarrow> string) \<Rightarrow> RoomState \<Rightarrow> store_call list \<Rightarrow> RoomState"
where
  "run_calls dn s calls = foldl (call_store dn) s calls"

text \<open>Every member is stored under its own user identifier.\<close>

definition keyed_by_userId :: "(string \<times> RoomMember) list \<Rightarrow> bool" where
  "keyed_by_userId ms = (\<forall>(k, m)\<in>set ms. userId m = k)"

subsection \<open>Scenario data\<close>

text \<open>
  Events and stores of the scenarios: a content with the three fields the store reads, a
  state event, a membership event, a typing event, a naming collaborator that names a
  member by its state key, a room with the two members \<open>@a:x\<close> and \<open>@b:x\<close>, a
  power-levels event whose content has no \<open>users\<close> field, one with the levels 50 and
  100, and one with a single level of 454560393033595.
\<close>

definition content_of ::
  "(string \<times> rat) list option \<Rightarrow> rat option \<Rightarrow> typing_list \<Rightarrow> Content"
where
  "content_of us d ids = \<lparr>users = us, users_default = d, user_ids = ids, membership = None\<rparr>"

definition state_event :: "string \<Rightarrow> string \<Rightarrow> string \<Rightarrow> Content \<Rightarrow> MatrixEvent" where
  "state_event rid t k c = \<lparr>room_id = rid, event_type = t, state_key = Some k, content = c\<rparr>"

definition member_event :: "string \<Rightarrow> string \<Rightarrow> string \<Rightarrow> MatrixEvent" where
  "member_event rid uid ms =
     state_event rid ''m.room.member'' uid
       ((content_of None None Absent)\<lparr>membership := Some ms\<rparr>)"

definition typing_event :: "string \<Rightarrow> typing_list \<Rightarrow> MatrixEvent" where
  "typing_event rid ids =
     \<lparr>room_id = rid, event_type = ''m.typing'', state_key = None,
      content = content_of None None ids\<rparr>"

definition key_name :: "MatrixEvent \<Rightarrow> RoomState \<Rightarrow> string" where
  "key_name e s = prop_key (getStateKey e)"

definition two_members :: RoomState where
  "two_members = store_of (setStateEvents key_name (new_RoomState ''!r:x'')
     [member_event ''!r:x'' ''@a:x'' ''join'', member_event ''!r:x'' ''@b:x'' ''join''])"

definition bare_power_levels :: MatrixEvent where
  "bare_power_levels =
     state_event ''!r:x'' ''m.room.power_levels'' '''' (content_of None (Some 50) Absent)"

definition full_power_levels :: MatrixEvent where
  "full_power_levels =
     state_event ''!r:x'' ''m.room.power_levels'' ''''
       (content_of (Some [(''@a:x'', 50), (''@b:x'', 100)]) (Some 0) Absent)"

definition tall_power_levels :: MatrixEvent where
  "tall_power_levels =
     state_event ''!r:x'' ''m.room.power_levels'' ''''
       (content_of (Some [(''@a:x'', 454560393033595)]) None Absent)"

section \<open>Properties\<close>

lemmas accessor_defs = getRoomId_def getType_def getStateKey_def isState_def getContent_def

lemmas scenario_defs = content_of_def state_event_def member_event_def typing_event_def
  key_name_def new_RoomState_def new_RoomMember_def calculateDisplayName_def

lemmas store_defs = fold_state_event_def put_state_event_def getStateEvents_def
  setPowerLevel_def maxLevel_of_def js_or_def utils_values_def setTypingEvent_def
  reset_typing_def run_calls_def Let_def

lemma two_members_eq:
  "two_members = \<lparr>roomId = ''!r:x'',
      members = [(''@a:x'', \<lparr>userId = ''@a:x'', displayName = ''@a:x'', typing = False,
                             powerLevel = 0, powerLevelNorm = Finite 0\<rparr>),
                 (''@b:x'', \<lparr>userId = ''@b:x'', displayName = ''@b:x'', typing = False,
                             powerLevel = 0, powerLevelNorm = Finite 0\<rparr>)],
      stateEvents = [(''m.room.member'',
         [(''@a:x'', member_event ''!r:x'' ''@a:x'' ''join''),
          (''@b:x'', member_event ''!r:x'' ''@b:x'' ''join'')])],
      paginationToken = None\<rparr>"
  by (simp add: two_members_def accessor_defs scenario_defs store_defs)

subsection \<open>Rounding to a double\<close>

lemma binade_from_eqI:
  assumes "e \<le> k" "k \<le> e + int n" "k = e \<or> 2 powi k \<le> a"
    "k = e + int n \<or> a < 2 powi (k + 1)"
  shows "binade_from n e a = k"
  using assms
proof (induction n arbitrary: e)
  case 0
  then show ?case by simp
next
  case (Suc n)
  show ?case
  proof (cases "a < 2 powi (e + 1)")
    case True
    have "k = e"
    proof (rule ccontr)
      assume "k \<noteq> e"
      with Suc.prems have "e + 1 \<le> k" "2 powi k \<le> a" by auto
      moreover have "(2::rat) powi (e + 1) \<le> 2 powi k"
        using \<open>e + 1 \<le> k\<close> by (intro power_int_increasing) auto
      ultimately show False using True by simp
    qed
    then show ?thesis using True by simp
  next
    case False
    then have ne: "k \<noteq> e" using Suc.prems(4) by auto
    have "binade_from n (e + 1) a = k"
      using Suc.prems ne by (intro Suc.IH) auto
    then show ?thesis using False by simp
  qed
qed

lemma binade_eqI:
  assumes "- 1022 \<le> k" "k \<le> 1024" "k = - 1022 \<or> 2 powi k \<le> a"
    "k = 1024 \<or> a < 2 powi (k + 1)"
  shows "binade a = k"
  unfolding binade_def using assms by (intro binade_from_eqI) auto

lemma binade_from_lower: "binade_from n e a = e \<or> 2 powi (binade_from n e a) \<le> a"
proof (induction n arbitrary: e)
  case 0
  show ?case by simp
next
  case (Suc n)
  show ?case
  proof (cases "a < 2 powi (e + 1)")
    case True
    then show ?thesis by simp
  next
    case False
    then show ?thesis using Suc.IH [of "e + 1"] by auto
  qed
qed

lemma binade_lower: "binade a = - 1022 \<or> 2 powi (binade a) \<le> a"
  unfolding binade_def by (rule binade_from_lower)

lemma binade_less:
  assumes "a < 2 powi k" "- 1022 < k"
  shows "binade a < k"
proof (cases "binade a = - 1022")
  case True
  with assms(2) show ?thesis by simp
next
  case False
  then have "2 powi (binade a) \<le> a" using binade_lower [of a] by simp
  with assms(1) have lt: "(2::rat) powi (binade a) < 2 powi k" by simp
  show ?thesis
  proof (rule ccontr)
    assume "\<not> binade a < k"
    then have "(2::rat) powi k \<le> 2 powi (binade a)"
      by (intro power_int_increasing) auto
    with lt show False by simp
  qed
qed

lemma round_half_even_near:
  assumes "\<bar>y - of_int n\<bar> < 1 / 2"
  shows "round_half_even y = n"
proof -
  from assms have lo: "of_int n - 1 / 2 < y" and hi: "y < of_int n + 1 / 2" by linarith+
  show ?thesis
  proof (cases "of_int n \<le> y")
    case True
    then have f: "\<lfloor>y\<rfloor> = n" using hi by (intro floor_unique) auto
    then show ?thesis using hi by (simp add: round_half_even_def Let_def)
  next
    case False
    then have f: "\<lfloor>y\<rfloor> = n - 1" using lo by (intro floor_unique) auto
    then show ?thesis using lo False by (simp add: round_half_even_def Let_def)
  qed
qed

lemma round_half_even_tie:
  "round_half_even (of_int n + 1 / 2) = (if even n then n else n + 1)"
proof -
  have "\<lfloor>(of_int n + 1 / 2 :: rat)\<rfloor> = n" by (intro floor_unique) auto
  then show ?thesis by (simp add: round_half_even_def Let_def)
qed

lemma round_half_even_of_int [simp]: "round_half_even (of_int n) = n"
  by (rule round_half_even_near) simp

lemma round_half_even_le:
  assumes "y \<le> of_int M"
  shows "round_half_even y \<le> M"
proof -
  have f: "\<lfloor>y\<rfloor> \<le> M" using assms by (simp add: floor_le_iff)
  show ?thesis
  proof (cases "\<lfloor>y\<rfloor> = M")
    case True
    then have "of_int M \<le> y" using of_int_floor_le [of y] by simp
    with assms have "y = of_int M" by simp
    then show ?thesis by simp
  next
    case False
    with f have "\<lfloor>y\<rfloor> + 1 \<le> M" by simp
    then show ?thesis using f by (auto simp: round_half_even_def Let_def)
  qed
qed

lemma round_half_even_nonneg:
  assumes "0 \<le> y"
  shows "0 \<le> round_half_even y"
proof -
  have "0 \<le> \<lfloor>y\<rfloor>" using assms by simp
  then show ?thesis by (auto simp: round_half_even_def Let_def)
qed

lemma round_double_eqI:
  assumes "0 < x" "binade x = e" "round_half_even (x / 2 powi (e - 52)) = n"
    "of_int n * 2 powi (e - 52) < (2::rat) powi 1024"
  shows "round_double x = Finite (of_int n * 2 powi (e - 52))"
  using assms by (simp add: round_double_def Let_def)

lemma ulp_inverse:
  assumes "e \<le> 52"
  shows "(2::rat) powi (e - 52) = 1 / 2 ^ nat (52 - e)"
proof -
  have "(2::rat) powi (e - 52) = 2 powi (- int (nat (52 - e)))" using assms by simp
  also have "\<dots> = 1 / 2 ^ nat (52 - e)"
    by (simp only: power_int_minus_divide power_int_of_nat)
  finally show ?thesis .
qed

text \<open>A whole number below \<open>2 ^ 53\<close> is a double: rounding leaves it as it is.\<close>

lemma round_double_of_int:
  assumes "0 \<le> n" "n < 2 ^ 53"
  shows "round_double (of_int n) = Finite (of_int n)"
proof (cases "n = 0")
  case True
  then show ?thesis by (simp add: round_double_def)
next
  case False
  with assms have pos: "0 < (of_int n :: rat)" by simp
  let ?e = "binade (of_int n)"
  let ?k = "nat (52 - ?e)"
  have n53: "(of_int n :: rat) < 2 powi 53" using assms(2)
    by (simp add: of_int_less_numeral_power_cancel_iff)
  then have "?e < 53" by (rule binade_less) simp
  then have e: "?e \<le> 52" by simp
  have u: "(2::rat) powi (?e - 52) = 1 / 2 ^ ?k" by (rule ulp_inverse [OF e])
  have "of_int n / (2::rat) powi (?e - 52) = of_int (n * 2 ^ ?k)" by (simp add: u)
  then have r: "round_half_even (of_int n / 2 powi (?e - 52)) = n * 2 ^ ?k"
    by (simp only: round_half_even_of_int)
  have v: "of_int (n * 2 ^ ?k) * (2::rat) powi (?e - 52) = of_int n" by (simp add: u)
  have b: "(of_int n :: rat) < 2 powi 1024"
  proof -
    have "(of_int n :: rat) < 2 powi 53" by (rule n53)
    also have "\<dots> \<le> 2 powi 1024" by (intro power_int_increasing) auto
    finally show ?thesis .
  qed
  have "of_int (n * 2 ^ ?k) * (2::rat) powi (?e - 52) < 2 powi 1024"
    unfolding v by (rule b)
  from round_double_eqI [OF pos refl r this] show ?thesis by (simp only: v)
qed

lemma round_double_numeral:
  assumes "(numeral k :: int) < 2 ^ 53"
  shows "round_double (numeral k) = Finite (numeral k)"
  using round_double_of_int [of "numeral k"] assms by simp

text \<open>Rounding is monotone at 0 and at 100, which are doubles.\<close>

lemma round_double_le_100:
  assumes "0 < q" "q \<le> 100"
  shows "\<exists>r. round_double q = Finite r \<and> 0 \<le> r \<and> r \<le> 100"
proof -
  let ?e = "binade q"
  let ?k = "nat (52 - ?e)"
  have "q < 2 powi 7" using assms(2) by simp
  then have "?e < 7" by (rule binade_less) simp
  then have e: "?e \<le> 52" by simp
  have u: "(2::rat) powi (?e - 52) = 1 / 2 ^ ?k" by (rule ulp_inverse [OF e])
  let ?n = "round_half_even (q / 2 powi (?e - 52))"
  have "q / 2 powi (?e - 52) = q * 2 ^ ?k" by (simp add: u)
  also have "\<dots> \<le> 100 * 2 ^ ?k" using assms(2) by simp
  also have "\<dots> = of_int (100 * 2 ^ ?k)" by simp
  finally have "?n \<le> 100 * 2 ^ ?k" by (rule round_half_even_le)
  then have "(of_int ?n :: rat) \<le> of_int (100 * 2 ^ ?k)" by (simp only: of_int_le_iff)
  then have "of_int ?n * (2::rat) powi (?e - 52) \<le> of_int (100 * 2 ^ ?k) * 2 powi (?e - 52)"
    by (intro mult_right_mono) auto
  also have "\<dots> = 100" by (simp add: u)
  finally have le: "of_int ?n * (2::rat) powi (?e - 52) \<le> 100" .
  have "0 \<le> q / 2 powi (?e - 52)" using assms(1) by simp
  then have "0 \<le> ?n" by (rule round_half_even_nonneg)
  then have ge: "0 \<le> of_int ?n * (2::rat) powi (?e - 52)" by simp
  have "of_int ?n * (2::rat) powi (?e - 52) < 2 powi 1024"
  proof -
    note le
    also have "(100::rat) < 2 powi 7" by simp
    also have "(2::rat) powi 7 \<le> 2 powi 1024" by (intro power_int_increasing) auto
    finally show ?thesis .
  qed
  from round_double_eqI [OF assms(1) refl refl this] le ge show ?thesis by blast
qed

lemma round_double_nonneg:
  assumes "0 \<le> x"
  shows "js_le (Finite 0) (round_double x)"
proof (cases "x = 0")
  case True
  then show ?thesis by (simp add: round_double_def)
next
  case False
  with assms have pos: "0 < x" by simp
  let ?u = "(2::rat) powi (binade \<bar>x\<bar> - 52)"
  have "0 \<le> \<bar>x\<bar> / ?u" by simp
  then have "0 \<le> round_half_even (\<bar>x\<bar> / ?u)" by (rule round_half_even_nonneg)
  then have "0 \<le> of_int (round_half_even (\<bar>x\<bar> / ?u)) * ?u" by simp
  then show ?thesis using pos by (simp add: round_double_def Let_def)
qed

lemma round_half_even_ge:
  assumes "of_int M \<le> y"
  shows "M \<le> round_half_even y"
proof -
  have "M \<le> \<lfloor>y\<rfloor>" using assms by (simp add: le_floor_iff)
  then show ?thesis by (auto simp: round_half_even_def Let_def)
qed

text \<open>A number of \<open>2 ^ 1024\<close> or more is beyond every double and rounds to Infinity.\<close>

lemma round_double_overflow:
  assumes "2 powi 1024 \<le> x"
  shows "round_double x = PosInf"
proof -
  have "(0::rat) < 2 powi 1024" by simp
  then have pos: "0 < x" using assms by (rule less_le_trans)
  have e: "binade x = 1024" using assms by (intro binade_eqI) simp_all
  let ?u = "(2::rat) powi 972"
  have "(2::rat) powi 1024 = 2 powi 52 * ?u" by (simp only: power_int_add_numeral) simp
  then have "2 powi 52 * ?u \<le> x" using assms by simp
  then have "(2::rat) powi 52 \<le> x / ?u" by (simp add: pos_le_divide_eq)
  then have "of_int (2 ^ 52) \<le> x / ?u" by simp
  then have "2 ^ 52 \<le> round_half_even (x / ?u)" by (rule round_half_even_ge)
  then have "(of_int (2 ^ 52) :: rat) \<le> of_int (round_half_even (x / ?u))"
    by (simp only: of_int_le_iff)
  then have "of_int (2 ^ 52) * ?u \<le> of_int (round_half_even (x / ?u)) * ?u"
    by (intro mult_right_mono) auto
  moreover have "of_int (2 ^ 52) * ?u = (2::rat) powi 1024"
    by (simp only: power_int_add_numeral of_int_power of_int_numeral power_int_numeral [symmetric]) simp
  ultimately have "(2::rat) powi 1024 \<le> of_int (round_half_even (x / ?u)) * ?u" by simp
  then show ?thesis using pos e by (simp add: round_double_def Let_def)
qed

text \<open>
  The two roundings of \<open>(454560393033595 * 100) / 454560393033595\<close>: the product
  45456039303359500 lies half way between two doubles and goes up to 45456039303359504,
  and the quotient goes to the double next above 100.
\<close>

lemma round_double_tall_product:
  "round_double 45456039303359500 = Finite 45456039303359504"
proof -
  have e: "binade 45456039303359500 = 55" by (rule binade_eqI) simp_all
  have "round_half_even (45456039303359500 / 2 powi (55 - 52)) = 5682004912919938"
    using round_half_even_tie [of 5682004912919937] by simp
  from round_double_eqI [OF _ e this] show ?thesis by simp
qed

lemma round_double_tall_quotient:
  "round_double (45456039303359504 / 454560393033595)
     = Finite (7036874417766401 / 70368744177664)"
proof -
  have e: "binade (45456039303359504 / 454560393033595) = 6" by (rule binade_eqI) simp_all
  have "round_half_even (45456039303359504 / 454560393033595 / 2 powi (6 - 52))
          = 7036874417766401"
    by (rule round_half_even_near) simp
  from round_double_eqI [OF _ e this] show ?thesis by simp
qed

subsection \<open>The power-level projection\<close>

lemma max_over_ge_init: "m \<le> max_over m xs"
proof (induction xs arbitrary: m)
  case Nil
  show ?case by simp
next
  case (Cons x xs)
  have "m \<le> max m x" by simp
  also have "\<dots> \<le> max_over (max m x) xs" by (rule Cons.IH)
  finally show ?case by simp
qed

lemma max_over_ge_mem: "x \<in> set xs \<Longrightarrow> x \<le> max_over m xs"
proof (induction xs arbitrary: m)
  case Nil
  then show ?case by simp
next
  case (Cons y ys)
  show ?case
  proof (cases "x = y")
    case True
    have "x \<le> max m y" using True by simp
    also have "\<dots> \<le> max_over (max m y) ys" by (rule max_over_ge_init)
    finally show ?thesis by simp
  next
    case False
    with Cons.prems have "x \<in> set ys" by simp
    then show ?thesis using Cons.IH by simp
  qed
qed

text \<open>What the projection writes when the event has a \<open>users\<close> dictionary.\<close>

lemma setPowerLevel_users:
  assumes "users (getContent pl) = Some us"
  shows "\<exists>m'. setPowerLevel pl m = Inr m' \<and>
           powerLevel m' =
             or_zero (js_or (map_of us (userId m)) (users_default (getContent pl))) \<and>
           powerLevelNorm m' =
             (if maxLevel_of pl > 0
              then js_divide (js_times (powerLevel m') 100) (maxLevel_of pl)
              else Finite 0) \<and>
           userId m' = userId m \<and> typing m' = typing m \<and> displayName m' = displayName m"
  using assms by (simp add: setPowerLevel_def Let_def)

lemma setPowerLevel_no_users:
  "users (getContent pl) = None \<Longrightarrow> setPowerLevel pl m = Inl TypeError"
  by (simp add: setPowerLevel_def)

text \<open>
  The precedence the code has: a listed level that is not 0, else a default that is not 0,
  else 0. A listed level of 0 is falsy and is passed over like a missing one.
\<close>

lemma powerLevel_precedence:
  assumes "users (getContent pl) = Some us" and "setPowerLevel pl m = Inr m'"
  shows "powerLevel m' =
     (case map_of us (userId m) of
        Some lvl \<Rightarrow> if lvl \<noteq> 0 then lvl else or_zero (users_default (getContent pl))
      | None \<Rightarrow> or_zero (users_default (getContent pl)))"
  using assms setPowerLevel_users [OF assms(1), of m]
  by (auto simp: js_or_def split: option.splits)

lemma powerLevel_le_maxLevel:
  assumes "users (getContent pl) = Some us"
  shows "or_zero (js_or (map_of us u) (users_default (getContent pl))) \<le> maxLevel_of pl"
proof (cases "truthy (map_of us u)")
  case True
  then obtain n where n: "map_of us u = Some n" "n \<noteq> 0"
    by (cases "map_of us u") auto
  then have "n \<in> set (utils_values us)"
    by (auto simp: utils_values_def dest!: map_of_SomeD intro: rev_image_eqI)
  then have "n \<le> maxLevel_of pl"
    using assms by (simp add: maxLevel_of_def max_over_ge_mem)
  then show ?thesis using n by (simp add: js_or_def)
next
  case False
  then have "js_or (map_of us u) (users_default (getContent pl)) = users_default (getContent pl)"
    by (simp add: js_or_def)
  moreover have "or_zero (users_default (getContent pl)) \<le> maxLevel_of pl"
    by (simp add: maxLevel_of_def max_over_ge_init)
  ultimately show ?thesis by simp
qed

lemma or_zero_nonneg:
  assumes "\<And>n. v = Some n \<Longrightarrow> 0 \<le> n"
  shows "0 \<le> or_zero v"
  using assms by (cases v) auto

lemma or_zero_Ints:
  assumes "\<And>n. v = Some n \<Longrightarrow> n \<in> \<int>"
  shows "or_zero v \<in> \<int>"
  using assms by (cases v) auto

text \<open>
  Claim C1 says that a member's \<open>powerLevel\<close> is \<open>users[userId]\<close> whenever that key is
  listed, so that a listed level of 0 gives 0 even when \<open>users_default\<close> is not 0. The code
  does otherwise: with \<open>users = {"@a:x": 0}\<close> and \<open>users_default = 50\<close> the projection gives
  the member \<open>@a:x\<close> the level 50 and the norm 100, alone and when the power-levels event
  and then the membership event are folded into a new store.
\<close>

theorem listed_zero_level_takes_default:
  "setPowerLevel
     (state_event ''!r:x'' ''m.room.power_levels'' ''''
        (content_of (Some [(''@a:x'', 0)]) (Some 50) Absent))
     (new_RoomMember (member_event ''!r:x'' ''@a:x'' ''join''))
   = Inr \<lparr>userId = ''@a:x'', displayName = ''@a:x'', typing = False,
          powerLevel = 50, powerLevelNorm = Finite 100\<rparr>
   \<and> map_option powerLevel
       (map_of (members (store_of (setStateEvents key_name (new_RoomState ''!r:x'')
          [state_event ''!r:x'' ''m.room.power_levels'' ''''
             (content_of (Some [(''@a:x'', 0)]) (Some 50) Absent),
           member_event ''!r:x'' ''@a:x'' ''join''])))
          ''@a:x'')
     = Some 50"
  by (simp add: accessor_defs scenario_defs store_defs js_times_def round_double_numeral)

lemma js_divide_nonneg:
  assumes "js_le (Finite 0) x" "0 < y"
  shows "js_le (Finite 0) (js_divide x y)"
proof (cases x)
  case (Finite r)
  with assms(1) have "0 \<le> r" by simp
  with assms(2) have "0 \<le> r / y" by simp
  then have "js_le (Finite 0) (round_double (r / y))" by (rule round_double_nonneg)
  then show ?thesis using Finite assms(2) by simp
next
  case PosInf
  then show ?thesis using assms(2) by simp
next
  case NegInf
  with assms(1) show ?thesis by simp
next
  case NaN
  with assms(1) show ?thesis by simp
qed

text \<open>
  When the level is a whole number and its product with 100 is below \<open>2 ^ 53\<close>, the
  product is exact and the rounded quotient cannot pass 100.
\<close>

lemma norm_le_100:
  assumes "0 \<le> p" "p \<in> \<int>" "p \<le> M" "0 < M" "p * 100 < 2 ^ 53"
  shows "js_le (js_divide (js_times p 100) M) (Finite 100)"
proof -
  from assms(2) obtain n where n: "p = of_int n" by (rule Ints_cases)
  with assms(1) have n0: "0 \<le> n * 100" by simp
  have "(of_int (n * 100) :: rat) < 2 ^ 53" using assms(5) n by simp
  then have n53: "n * 100 < 2 ^ 53" by (simp only: of_int_less_numeral_power_cancel_iff)
  have "js_times p 100 = round_double (of_int (n * 100))" by (simp add: js_times_def n)
  also have "\<dots> = Finite (of_int (n * 100))" by (rule round_double_of_int [OF n0 n53])
  finally have t: "js_times p 100 = Finite (p * 100)" by (simp add: n)
  let ?q = "p * 100 / M"
  have d: "js_divide (js_times p 100) M = round_double ?q" using assms(4) by (simp add: t)
  have q0: "0 \<le> ?q" using assms(1,4) by simp
  have q100: "?q \<le> 100" using assms(3,4) by (simp add: pos_divide_le_eq)
  show ?thesis
  proof (cases "?q = 0")
    case True
    then have "round_double ?q = Finite 0" by (simp add: round_double_def)
    then show ?thesis by (simp add: d)
  next
    case False
    with q0 have "0 < ?q" by (simp only: less_le) simp
    from round_double_le_100 [OF this q100]
    obtain r where "round_double ?q = Finite r" "r \<le> 100" by blast
    then show ?thesis by (simp add: d)
  qed
qed

text \<open>
  A level of \<open>2 ^ 1023\<close> is a double; its product with 100 overflows and the norm is
  Infinity.
\<close>

lemma powerLevelNorm_overflow:
  "setPowerLevel
     (state_event ''!r:x'' ''m.room.power_levels'' ''''
        (content_of (Some [(''@a:x'', 2 ^ 1023)]) None Absent))
     (new_RoomMember (member_event ''!r:x'' ''@a:x'' ''join''))
   = Inr \<lparr>userId = ''@a:x'', displayName = ''@a:x'', typing = False,
          powerLevel = 2 ^ 1023, powerLevelNorm = PosInf\<rparr>"
proof -
  have "round_double (2 ^ 1023 * 100) = PosInf" by (rule round_double_overflow) simp
  then show ?thesis
    by (simp add: accessor_defs scenario_defs store_defs js_times_def)
qed

text \<open>
  Claim C7 says that for a well-formed power-levels event (levels that are whole numbers and
  not negative, \<open>users_default\<close> such a number or missing) the \<open>powerLevelNorm\<close> of every
  member lies between 0 and 100. It does not in doubles: with the single level
  454560393033595 the member \<open>@a:x\<close> has that level, \<open>maxLevel\<close> is the same number, and
  the two roundings of \<open>(powerLevel * 100) / maxLevel\<close> give the double next above 100.
\<close>

theorem powerLevelNorm_above_100:
  "users (getContent tall_power_levels) = Some [(''@a:x'', 454560393033595)] \<and>
   users_default (getContent tall_power_levels) = None \<and>
   (0::rat) \<le> 454560393033595 \<and> (454560393033595::rat) \<in> \<int> \<and>
   setPowerLevel tall_power_levels (new_RoomMember (member_event ''!r:x'' ''@a:x'' ''join''))
     = Inr \<lparr>userId = ''@a:x'', displayName = ''@a:x'', typing = False,
            powerLevel = 454560393033595,
            powerLevelNorm = Finite (7036874417766401 / 70368744177664)\<rparr> \<and>
   \<not> js_le (Finite (7036874417766401 / 70368744177664)) (Finite 100) \<and>
   (100::rat) < 7036874417766401 / 70368744177664"
  by (simp add: tall_power_levels_def accessor_defs scenario_defs store_defs js_times_def
        round_double_tall_product round_double_tall_quotient)

text \<open>
  Claim C7 as amended: for such an event the projection returns for every member; the
  member's \<open>powerLevelNorm\<close> is never below 0 (it is a double that is not negative, or
  Infinity when the product overflows); it is 0 whenever \<open>maxLevel\<close> is at most 0; and it is
  at most 100 whenever \<open>powerLevel * 100\<close> is below \<open>2 ^ 53\<close>, where the product is exact.
\<close>

theorem powerLevelNorm_in_range:
  assumes "users (getContent pl) = Some us"
    and "\<forall>(u, lvl)\<in>set us. 0 \<le> lvl \<and> lvl \<in> \<int>"
    and "\<forall>d. users_default (getContent pl) = Some d \<longrightarrow> 0 \<le> d \<and> d \<in> \<int>"
  shows "\<exists>m'. setPowerLevel pl m = Inr m' \<and>
           js_le (Finite 0) (powerLevelNorm m') \<and>
           (maxLevel_of pl \<le> 0 \<longrightarrow> powerLevelNorm m' = Finite 0) \<and>
           (powerLevel m' * 100 < 2 ^ 53 \<longrightarrow> js_le (powerLevelNorm m') (Finite 100))"
proof -
  let ?v = "js_or (map_of us (userId m)) (users_default (getContent pl))"
  let ?p = "or_zero ?v"
  let ?M = "maxLevel_of pl"
  obtain m' where m': "setPowerLevel pl m = Inr m'" "powerLevel m' = ?p"
    "powerLevelNorm m' =
       (if ?M > 0 then js_divide (js_times (powerLevel m') 100) ?M else Finite 0)"
    using setPowerLevel_users [OF assms(1), of m] by blast
  have src: "0 \<le> n \<and> n \<in> \<int>" if n: "?v = Some n" for n
  proof (cases "truthy (map_of us (userId m))")
    case True
    with n have "map_of us (userId m) = Some n" by (simp add: js_or_def)
    then have "(userId m, n) \<in> set us" by (rule map_of_SomeD)
    with assms(2) show ?thesis by blast
  next
    case False
    with n have "users_default (getContent pl) = Some n" by (simp add: js_or_def)
    with assms(3) show ?thesis by blast
  qed
  have nonneg: "0 \<le> ?p" by (rule or_zero_nonneg) (simp add: src)
  have whole: "?p \<in> \<int>" by (rule or_zero_Ints) (simp add: src)
  have le: "?p \<le> ?M" by (rule powerLevel_le_maxLevel [OF assms(1)])
  show ?thesis
  proof (cases "?M > 0")
    case False
    then have "powerLevelNorm m' = Finite 0" using m'(3) by simp
    then show ?thesis using m'(1) by simp
  next
    case True
    then have norm: "powerLevelNorm m' = js_divide (js_times ?p 100) ?M"
      using m'(2,3) by simp
    have "js_le (Finite 0) (js_times ?p 100)"
      unfolding js_times_def using nonneg by (intro round_double_nonneg) simp
    then have lo: "js_le (Finite 0) (powerLevelNorm m')"
      unfolding norm using True by (rule js_divide_nonneg)
    have hi: "js_le (powerLevelNorm m') (Finite 100)" if "powerLevel m' * 100 < 2 ^ 53"
      unfolding norm using nonneg whole le True that [unfolded m'(2)] by (rule norm_le_100)
    show ?thesis using m'(1) lo hi True by auto
  qed
qed

theorem powerLevelNorm_in_range_witness:
  "\<exists>m'. setPowerLevel full_power_levels
       (new_RoomMember (member_event ''!r:x'' ''@a:x'' ''join'')) = Inr m'
     \<and> powerLevel m' = 50 \<and> powerLevelNorm m' = Finite 50
     \<and> js_le (Finite 0) (powerLevelNorm m') \<and> js_le (powerLevelNorm m') (Finite 100)"
proof -
  let ?us = "[(''@a:x'', 50), (''@b:x'', 100::rat)]"
  let ?m = "new_RoomMember (member_event ''!r:x'' ''@a:x'' ''join'')"
  have h1: "users (getContent full_power_levels) = Some ?us"
    by (simp add: full_power_levels_def accessor_defs scenario_defs)
  have h2: "\<forall>(u, lvl)\<in>set ?us. 0 \<le> lvl \<and> lvl \<in> \<int>" by simp
  have h3: "\<forall>d. users_default (getContent full_power_levels) = Some d \<longrightarrow> 0 \<le> d \<and> d \<in> \<int>"
    by (simp add: full_power_levels_def accessor_defs scenario_defs)
  have v: "setPowerLevel full_power_levels ?m = Inr \<lparr>userId = ''@a:x'',
          displayName = ''@a:x'', typing = False, powerLevel = 50,
          powerLevelNorm = Finite 50\<rparr>"
    by (simp add: full_power_levels_def accessor_defs scenario_defs store_defs js_times_def
          round_double_numeral)
  from powerLevelNorm_in_range [OF h1 h2 h3, of ?m]
  obtain m' where m': "setPowerLevel full_power_levels ?m = Inr m'"
    "js_le (Finite 0) (powerLevelNorm m')"
    "powerLevel m' * 100 < 2 ^ 53 \<longrightarrow> js_le (powerLevelNorm m') (Finite 100)"
    by blast
  from m'(1) v have "m' = \<lparr>userId = ''@a:x'', displayName = ''@a:x'', typing = False,
      powerLevel = 50, powerLevelNorm = Finite 50\<rparr>" by simp
  with m' show ?thesis by (intro exI [of _ m']) simp
qed

subsection \<open>The typing projection\<close>

lemma map_of_reset_typing:
  "map_of (reset_typing ms) k = map_option (\<lambda>m. m\<lparr>typing := False\<rparr>) (map_of ms k)"
  by (induction ms) (auto simp: reset_typing_def)

lemma map_of_mark_typing:
  "map_of (mark_typing ms uids) k =
     map_option (\<lambda>m. if k \<in> set uids then m\<lparr>typing := True\<rparr> else m) (map_of ms k)"
proof (induction uids arbitrary: ms)
  case Nil
  show ?case by (simp add: option.map_ident)
next
  case (Cons u us)
  show ?case
  proof (cases "map_of ms u")
    case None
    then show ?thesis using Cons.IH [of ms] by (cases "k = u") auto
  next
    case (Some m)
    then show ?thesis
      using Cons.IH [of "AList.map_entry u (\<lambda>member. member\<lparr>typing := True\<rparr>) ms"]
      by (cases "map_of ms k") (auto simp: AList.map_of_map_entry)
  qed
qed

lemma keys_reset_typing: "map fst (reset_typing ms) = map fst ms"
  by (simp add: reset_typing_def case_prod_beta)

lemma keys_map_entry: "map fst (AList.map_entry k f ms) = map fst ms"
  by (induction ms) auto

lemma keys_list_mark_typing: "map fst (mark_typing ms uids) = map fst ms"
  by (induction uids arbitrary: ms) (simp_all add: keys_map_entry)

lemma keys_mark_typing: "fst ` set (mark_typing ms uids) = fst ` set ms"
  by (induction uids arbitrary: ms) (simp_all add: AList.dom_map_entry)

lemma typing_replacement:
  "map_of (mark_typing (reset_typing ms) uids) k =
     map_option (\<lambda>m. m\<lparr>typing := (k \<in> set uids)\<rparr>) (map_of ms k)"
  by (cases "map_of ms k") (simp_all add: map_of_mark_typing map_of_reset_typing)

lemma setTypingEvent_typing:
  assumes "getType e = ''m.typing''"
  shows "setTypingEvent s e =
     Returned (s\<lparr>members := (case user_ids (getContent e) of
                                Ids uids \<Rightarrow> mark_typing (reset_typing (members s)) uids
                              | _ \<Rightarrow> reset_typing (members s))\<rparr>)"
  using assms by (cases "user_ids (getContent e)") (simp_all add: setTypingEvent_def Let_def)

text \<open>
  Claim C3: a typing event whose \<open>user_ids\<close> is an array makes \<open>setTypingEvent\<close> return; the
  store keeps the same members and state events, and the member under each key \<open>k\<close> is the
  former one with \<open>typing\<close> set to whether \<open>k\<close> is in the array, whatever it was before.
  Identifiers of the array that are no member add nothing. Where every member is stored
  under its own \<open>userId\<close>, a member is typing exactly when its \<open>userId\<close> is in the array.
\<close>

theorem typing_is_replaced:
  assumes "getType e = ''m.typing''" and "user_ids (getContent e) = Ids uids"
  shows "\<exists>s'. setTypingEvent s e = Returned s' \<and>
           stateEvents s' = stateEvents s \<and>
           (\<forall>k. map_of (members s') k =
                  map_option (\<lambda>m. m\<lparr>typing := (k \<in> set uids)\<rparr>) (map_of (members s) k)) \<and>
           (keyed_by_userId (members s) \<longrightarrow>
              (\<forall>k m'. map_of (members s') k = Some m' \<longrightarrow>
                 typing m' = (userId m' \<in> set uids)))"
proof -
  let ?s' = "s\<lparr>members := mark_typing (reset_typing (members s)) uids\<rparr>"
  have r: "setTypingEvent s e = Returned ?s'"
    using assms by (simp add: setTypingEvent_typing)
  have m: "map_of (members ?s') k =
             map_option (\<lambda>m. m\<lparr>typing := (k \<in> set uids)\<rparr>) (map_of (members s) k)" for k
    by (simp add: typing_replacement)
  have u: "typing m' = (userId m' \<in> set uids)"
    if inv: "keyed_by_userId (members s)"
      and got: "map_of (members ?s') k = Some m'"
    for k m'
  proof -
    from got m [of k] obtain m0 where m0: "map_of (members s) k = Some m0"
      "m' = m0\<lparr>typing := (k \<in> set uids)\<rparr>"
      by (cases "map_of (members s) k") auto
    from m0(1) have "(k, m0) \<in> set (members s)" by (rule map_of_SomeD)
    with inv have "userId m0 = k" by (auto simp: keyed_by_userId_def)
    with m0(2) show ?thesis by simp
  qed
  show ?thesis using r m u by (intro exI [of _ ?s']) simp
qed

theorem typing_is_replaced_witness:
  "map_option typing (map_of (members (store_of (setTypingEvent
       (store_of (setTypingEvent two_members (typing_event ''!r:x'' (Ids [''@a:x'']))))
       (typing_event ''!r:x'' (Ids [''@b:x'', ''@zz:x''])))))
     ''@a:x'') = Some False
   \<and> map_option typing (map_of (members (store_of (setTypingEvent
       (store_of (setTypingEvent two_members (typing_event ''!r:x'' (Ids [''@a:x'']))))
       (typing_event ''!r:x'' (Ids [''@b:x'', ''@zz:x''])))))
     ''@b:x'') = Some True
   \<and> map_of (members (store_of (setTypingEvent
       (store_of (setTypingEvent two_members (typing_event ''!r:x'' (Ids [''@a:x'']))))
       (typing_event ''!r:x'' (Ids [''@b:x'', ''@zz:x''])))))
     ''@zz:x'' = None"
proof -
  let ?e = "typing_event ''!r:x'' (Ids [''@b:x'', ''@zz:x''])"
  let ?s = "store_of (setTypingEvent two_members (typing_event ''!r:x'' (Ids [''@a:x''])))"
  have h1: "getType ?e = ''m.typing''" by (simp add: accessor_defs scenario_defs)
  have h2: "user_ids (getContent ?e) = Ids [''@b:x'', ''@zz:x'']"
    by (simp add: accessor_defs scenario_defs)
  have s: "members ?s =
      [(''@a:x'', \<lparr>userId = ''@a:x'', displayName = ''@a:x'', typing = True,
                   powerLevel = 0, powerLevelNorm = Finite 0\<rparr>),
       (''@b:x'', \<lparr>userId = ''@b:x'', displayName = ''@b:x'', typing = False,
                   powerLevel = 0, powerLevelNorm = Finite 0\<rparr>)]"
    by (simp add: two_members_eq accessor_defs scenario_defs store_defs)
  have k: "keyed_by_userId (members ?s)" by (simp add: s keyed_by_userId_def)
  from typing_is_replaced [OF h1 h2, of ?s] k
  obtain s' where s': "setTypingEvent ?s ?e = Returned s'"
    and byKey: "\<forall>k. map_of (members s') k =
        map_option (\<lambda>m. m\<lparr>typing := (k \<in> set [''@b:x'', ''@zz:x''])\<rparr>) (map_of (members ?s) k)"
    and byId: "\<forall>k m'. map_of (members s') k = Some m' \<longrightarrow>
        typing m' = (userId m' \<in> set [''@b:x'', ''@zz:x''])"
    by blast
  have a: "map_option typing (map_of (members s') ''@a:x'') = Some False"
    using byKey by (simp add: s)
  have z: "map_of (members s') ''@zz:x'' = None" using byKey by (simp add: s)
  obtain mb where mb: "map_of (members s') ''@b:x'' = Some mb" "userId mb = ''@b:x''"
    using byKey by (simp add: s)
  with byId have "typing mb" by simp
  with mb have b: "map_option typing (map_of (members s') ''@b:x'') = Some True" by simp
  show ?thesis using a b z by (simp add: s')
qed

text \<open>
  Claim C4: for an event of any type but \<open>m.typing\<close>, \<open>setTypingEvent\<close> throws the error
  "Not a typing event -> " followed by the type, and the store it leaves is the store it
  was given: members, typing flags and state events alike.
\<close>

theorem not_a_typing_event_throws:
  assumes "getType e \<noteq> ''m.typing''"
  shows "setTypingEvent s e = Threw (Error (''Not a typing event -> '' @ getType e)) s"
  using assms by (simp add: setTypingEvent_def)

theorem not_a_typing_event_throws_witness:
  "setTypingEvent two_members
     (state_event ''!r:x'' ''m.room.topic'' '''' (content_of None None (Ids [''@a:x''])))
   = Threw (Error ''Not a typing event -> m.room.topic'') two_members"
proof -
  let ?e = "state_event ''!r:x'' ''m.room.topic'' '''' (content_of None None (Ids [''@a:x'']))"
  have h: "getType ?e \<noteq> ''m.typing''" by (simp add: accessor_defs scenario_defs)
  have t: "getType ?e = ''m.room.topic''" by (simp add: accessor_defs scenario_defs)
  show ?thesis using not_a_typing_event_throws [OF h, of two_members] by (simp add: t)
qed

text \<open>
  Claim C5: for an \<open>m.typing\<close> event whose \<open>user_ids\<close> is not an array, \<open>setTypingEvent\<close>
  returns without throwing, and the only change to the store is that every member is no
  longer typing: the members are the same, under the same keys in the same order.
\<close>

theorem malformed_typing_list_resets:
  assumes "getType e = ''m.typing''" and "\<not> utils_isArray (user_ids (getContent e))"
  shows "setTypingEvent s e = Returned (s\<lparr>members := reset_typing (members s)\<rparr>) \<and>
         map fst (reset_typing (members s)) = map fst (members s) \<and>
         (\<forall>m\<in>set (utils_values (reset_typing (members s))). \<not> typing m) \<and>
         (\<forall>k. map_of (reset_typing (members s)) k =
                map_option (\<lambda>m. m\<lparr>typing := False\<rparr>) (map_of (members s) k))"
proof -
  have "setTypingEvent s e = Returned (s\<lparr>members := reset_typing (members s)\<rparr>)"
    using assms by (cases "user_ids (getContent e)") (simp_all add: setTypingEvent_typing)
  moreover have "\<forall>m\<in>set (utils_values (reset_typing (members s))). \<not> typing m"
    by (auto simp: utils_values_def reset_typing_def)
  ultimately show ?thesis by (simp add: keys_reset_typing map_of_reset_typing)
qed

theorem malformed_typing_list_resets_witness:
  "setTypingEvent
     (store_of (setTypingEvent two_members (typing_event ''!r:x'' (Ids [''@a:x'']))))
     (typing_event ''!r:x'' (Scalar ''not-a-list''))
   = Returned two_members"
proof -
  let ?e = "typing_event ''!r:x'' (Scalar ''not-a-list'')"
  let ?s = "store_of (setTypingEvent two_members (typing_event ''!r:x'' (Ids [''@a:x''])))"
  have h1: "getType ?e = ''m.typing''" by (simp add: accessor_defs scenario_defs)
  have h2: "\<not> utils_isArray (user_ids (getContent ?e))"
    by (simp add: accessor_defs scenario_defs)
  have r: "?s\<lparr>members := reset_typing (members ?s)\<rparr> = two_members"
    by (simp add: two_members_eq accessor_defs scenario_defs store_defs)
  from malformed_typing_list_resets [OF h1 h2, of ?s]
  have "setTypingEvent ?s ?e = Returned (?s\<lparr>members := reset_typing (members ?s)\<rparr>)"
    by (rule conjunct1)
  then show ?thesis by (simp only: r)
qed

text \<open>
  Claim C9: \<open>setTypingEvent\<close> never looks at the room identifier. Whatever room \<open>r\<close> an
  \<open>m.typing\<close> event is said to be of, this store's or another, the call returns, the store
  keeps its room, its state events and its members under the same keys, and the member
  under each key \<open>k\<close> is the former one with \<open>typing\<close> set to whether \<open>k\<close> is in the
  \<open>user_ids\<close> array, and to false when \<open>user_ids\<close> is no array: every member is reset, then
  the listed ones are set.
\<close>

theorem typing_ignores_room_id:
  assumes "getType e = ''m.typing''"
  shows "\<exists>s'. setTypingEvent s (e\<lparr>room_id := r\<rparr>) = Returned s' \<and>
           roomId s' = roomId s \<and> stateEvents s' = stateEvents s \<and>
           map fst (members s') = map fst (members s) \<and>
           (\<forall>k. map_of (members s') k =
              map_option
                (\<lambda>m. m\<lparr>typing := (case user_ids (getContent e) of
                                      Ids uids \<Rightarrow> k \<in> set uids
                                    | _ \<Rightarrow> False)\<rparr>)
                (map_of (members s) k))"
proof -
  let ?e = "e\<lparr>room_id := r\<rparr>"
  have t: "getType ?e = ''m.typing''" using assms by (simp add: getType_def)
  have c: "user_ids (getContent ?e) = user_ids (getContent e)" by (simp add: getContent_def)
  show ?thesis
  proof (cases "user_ids (getContent e)")
    case (Ids uids)
    then show ?thesis
      by (simp add: setTypingEvent_typing [OF t] c typing_replacement keys_reset_typing
            keys_list_mark_typing)
  next
    case Absent
    then show ?thesis
      by (simp add: setTypingEvent_typing [OF t] c map_of_reset_typing keys_reset_typing)
  next
    case (Scalar v)
    then show ?thesis
      by (simp add: setTypingEvent_typing [OF t] c map_of_reset_typing keys_reset_typing)
  qed
qed

theorem typing_ignores_room_id_witness:
  "getRoomId (typing_event ''!other:x'' (Ids [''@b:x''])) \<noteq>
     roomId (store_of (setTypingEvent two_members (typing_event ''!r:x'' (Ids [''@a:x''])))) \<and>
   map_option typing (map_of (members
       (store_of (setTypingEvent two_members (typing_event ''!r:x'' (Ids [''@a:x''])))))
     ''@a:x'') = Some True \<and>
   map_option typing (map_of (members (store_of (setTypingEvent
       (store_of (setTypingEvent two_members (typing_event ''!r:x'' (Ids [''@a:x'']))))
       (typing_event ''!other:x'' (Ids [''@b:x''])))))
     ''@a:x'') = Some False \<and>
   map_option typing (map_of (members (store_of (setTypingEvent
       (store_of (setTypingEvent two_members (typing_event ''!r:x'' (Ids [''@a:x'']))))
       (typing_event ''!other:x'' (Ids [''@b:x''])))))
     ''@b:x'') = Some True"
proof -
  let ?e = "typing_event ''!r:x'' (Ids [''@b:x''])"
  let ?f = "typing_event ''!other:x'' (Ids [''@b:x''])"
  let ?s = "store_of (setTypingEvent two_members (typing_event ''!r:x'' (Ids [''@a:x''])))"
  have h: "getType ?e = ''m.typing''" by (simp add: accessor_defs scenario_defs)
  have e: "?e\<lparr>room_id := ''!other:x''\<rparr> = ?f" by (simp add: scenario_defs)
  have c: "user_ids (getContent ?e) = Ids [''@b:x'']" by (simp add: accessor_defs scenario_defs)
  have s: "members ?s =
      [(''@a:x'', \<lparr>userId = ''@a:x'', displayName = ''@a:x'', typing = True,
                   powerLevel = 0, powerLevelNorm = Finite 0\<rparr>),
       (''@b:x'', \<lparr>userId = ''@b:x'', displayName = ''@b:x'', typing = False,
                   powerLevel = 0, powerLevelNorm = Finite 0\<rparr>)]"
    by (simp add: two_members_eq accessor_defs scenario_defs store_defs)
  have r: "getRoomId ?f \<noteq> roomId ?s"
    by (simp add: two_members_eq accessor_defs scenario_defs store_defs)
  have a: "map_option typing (map_of (members ?s) ''@a:x'') = Some True" by (simp add: s)
  from typing_ignores_room_id [OF h, of ?s "''!other:x''"]
  obtain s' where s': "setTypingEvent ?s ?f = Returned s'"
    and byKey: "\<forall>k. map_of (members s') k =
        map_option (\<lambda>m. m\<lparr>typing := (k \<in> set [''@b:x''])\<rparr>) (map_of (members ?s) k)"
    unfolding e c by auto
  have a': "map_option typing (map_of (members s') ''@a:x'') = Some False"
    using byKey by (simp add: s)
  have b': "map_option typing (map_of (members s') ''@b:x'') = Some True"
    using byKey by (simp add: s)
  show ?thesis using r a a' b' by (simp only: s' store_of.simps) simp
qed

subsection \<open>The fold of one state event\<close>

lemma getStateEvents_cong:
  "stateEvents a = stateEvents b \<Longrightarrow> getStateEvents a t k = getStateEvents b t k"
  by (simp add: getStateEvents_def)

lemma getStateEvents_put:
  "getStateEvents (s\<lparr>stateEvents := put_state_event e (stateEvents s)\<rparr>) t (Some k) =
     (if t = getType e \<and> k = prop_key (getStateKey e) then Event e
      else getStateEvents s t (Some k))"
  by (auto simp: getStateEvents_def put_state_event_def Let_def AList.update_conv'
           split: option.splits)

lemma keys_setPowerLevel_each:
  "map fst (store_of (setPowerLevel_each ev ms)) = map fst ms"
  by (induction ms) (auto split: sum.splits outcome.splits)

lemma keys_setPowerLevel_each_set:
  "fst ` set (store_of (setPowerLevel_each ev ms)) = fst ` set ms"
  using keys_setPowerLevel_each [of ev ms] by (metis set_map)

lemma setPowerLevel_each_no_users:
  assumes "users (getContent pl) = None" "ms \<noteq> []"
  shows "setPowerLevel_each pl ms = Threw TypeError ms"
  using assms by (cases ms) (auto simp: setPowerLevel_no_users)

lemma setPowerLevel_each_returns:
  assumes "users (getContent pl) \<noteq> None"
  shows "\<not> has_thrown (setPowerLevel_each pl ms)"
proof (induction ms)
  case Nil
  show ?case by simp
next
  case (Cons km ms)
  obtain k m where km: "km = (k, m)" by (cases km)
  from assms obtain us where "users (getContent pl) = Some us" by blast
  then obtain m' where "setPowerLevel pl m = Inr m'"
    using setPowerLevel_users [of pl us m] by blast
  then show ?case using Cons.IH km by (cases "setPowerLevel_each pl ms") simp_all
qed

lemma fold_state_event_roomId: "roomId (store_of (fold_state_event dn s e)) = roomId s"
  by (simp add: fold_state_event_def Let_def
        split: query_result.splits sum.splits outcome.splits)

lemma fold_state_event_stateEvents:
  "stateEvents (store_of (fold_state_event dn s e)) =
     (if getRoomId e = roomId s \<and> isState e then put_state_event e (stateEvents s)
      else stateEvents s)"
  by (simp add: fold_state_event_def Let_def
        split: query_result.splits sum.splits outcome.splits)

lemma fold_state_event_skip:
  assumes "getRoomId e \<noteq> roomId s \<or> \<not> isState e"
  shows "fold_state_event dn s e = Returned s"
  using assms by (auto simp: fold_state_event_def)

lemma fold_state_event_member_keys:
  assumes "getRoomId e = roomId s" "isState e" "getType e = ''m.room.member''"
  shows "fst ` set (members (store_of (fold_state_event dn s e))) =
           insert (prop_key (getStateKey e)) (fst ` set (members s))"
  using assms
  by (simp add: fold_state_event_def Let_def AList.dom_update
        split: query_result.splits sum.splits)

lemma fold_state_event_power_levels_keys:
  assumes "getRoomId e = roomId s" "isState e" "getType e = ''m.room.power_levels''"
  shows "fst ` set (members (store_of (fold_state_event dn s e))) = fst ` set (members s)"
proof -
  have "members (store_of (fold_state_event dn s e)) =
          store_of (setPowerLevel_each e (members s))"
    using assms by (simp add: fold_state_event_def Let_def split: outcome.splits)
  then show ?thesis by (simp only: keys_setPowerLevel_each_set)
qed

lemma fold_state_event_other:
  assumes "getRoomId e = roomId s" "isState e"
    "getType e \<noteq> ''m.room.member''" "getType e \<noteq> ''m.room.power_levels''"
  shows "fold_state_event dn s e =
           Returned (s\<lparr>stateEvents := put_state_event e (stateEvents s)\<rparr>)"
  using assms by (simp add: fold_state_event_def Let_def)

lemma fold_state_event_keys:
  "fst ` set (members s) \<subseteq> fst ` set (members (store_of (fold_state_event dn s e)))"
proof (cases "getRoomId e = roomId s \<and> isState e")
  case False
  then show ?thesis by (simp add: fold_state_event_skip)
next
  case True
  consider "getType e = ''m.room.member''" | "getType e = ''m.room.power_levels''"
    | "getType e \<noteq> ''m.room.member''" "getType e \<noteq> ''m.room.power_levels''"
    by blast
  then show ?thesis
  proof cases
    case 1
    with True show ?thesis by (simp add: fold_state_event_member_keys subset_insertI)
  next
    case 2
    with True show ?thesis by (simp add: fold_state_event_power_levels_keys)
  next
    case 3
    with True show ?thesis by (simp add: fold_state_event_other)
  qed
qed

text \<open>A membership event does not touch the power-levels slot that its projection reads.\<close>

lemma member_fold_slot:
  assumes "getType e = ''m.room.member''"
  shows "getStateEvents (s\<lparr>stateEvents := put_state_event e (stateEvents s), members := ms\<rparr>)
           ''m.room.power_levels'' (Some '''') =
         getStateEvents s ''m.room.power_levels'' (Some '''')"
proof -
  have "getStateEvents (s\<lparr>stateEvents := put_state_event e (stateEvents s), members := ms\<rparr>)
           ''m.room.power_levels'' (Some '''') =
        getStateEvents (s\<lparr>stateEvents := put_state_event e (stateEvents s)\<rparr>)
           ''m.room.power_levels'' (Some '''')"
    by (rule getStateEvents_cong) simp
  also have "\<dots> = getStateEvents s ''m.room.power_levels'' (Some '''')"
    using assms by (simp add: getStateEvents_put)
  finally show ?thesis .
qed

lemma power_levels_fold_throws:
  assumes "users (getContent pl) = None" "getRoomId pl = roomId s" "isState pl"
    "getType pl = ''m.room.power_levels''" "members s \<noteq> []"
  shows "fold_state_event dn s pl =
           Threw TypeError (s\<lparr>stateEvents := put_state_event pl (stateEvents s)\<rparr>)"
  using assms by (simp add: fold_state_event_def Let_def setPowerLevel_each_no_users)

lemma member_fold_throws:
  assumes "users (getContent pl) = None"
    "getStateEvents s ''m.room.power_levels'' (Some '''') = Event pl"
    "getRoomId e = roomId s" "isState e" "getType e = ''m.room.member''"
  shows "\<exists>s'. fold_state_event dn s e = Threw TypeError s' \<and>
           map_of (members s') (prop_key (getStateKey e)) \<noteq> None"
  using assms
  by (simp add: fold_state_event_def Let_def member_fold_slot setPowerLevel_no_users
        AList.update_conv')

text \<open>
  When the power-levels event of the slot and the one being folded both have \<open>users\<close>, one
  step of the fold returns, and the slot still holds an event with \<open>users\<close>.
\<close>

lemma fold_state_event_returns:
  assumes I: "\<forall>p. getStateEvents s ''m.room.power_levels'' (Some '''') = Event p \<longrightarrow>
                users (getContent p) \<noteq> None"
    and B: "getType e = ''m.room.power_levels'' \<longrightarrow> users (getContent e) \<noteq> None"
  shows "\<not> has_thrown (fold_state_event dn s e)"
proof (cases "getRoomId e = roomId s \<and> isState e")
  case False
  then show ?thesis by (simp add: fold_state_event_skip)
next
  case True
  consider "getType e = ''m.room.member''" | "getType e = ''m.room.power_levels''"
    | "getType e \<noteq> ''m.room.member''" "getType e \<noteq> ''m.room.power_levels''"
    by blast
  then show ?thesis
  proof cases
    case 1
    show ?thesis
    proof (cases "getStateEvents s ''m.room.power_levels'' (Some '''')")
      case (Event p)
      with I obtain us where "users (getContent p) = Some us" by blast
      then obtain m' where "setPowerLevel p
          (calculateDisplayName dn e (s\<lparr>stateEvents := put_state_event e (stateEvents s)\<rparr>)
             (new_RoomMember e)) = Inr m'"
        using setPowerLevel_users by blast
      then show ?thesis using True 1 Event
        by (simp add: fold_state_event_def Let_def member_fold_slot)
    next
      case (Events es)
      then show ?thesis using True 1
        by (simp add: fold_state_event_def Let_def member_fold_slot)
    next
      case Null
      then show ?thesis using True 1
        by (simp add: fold_state_event_def Let_def member_fold_slot)
    qed
  next
    case 2
    with B have "\<not> has_thrown (setPowerLevel_each e (members s))"
      by (simp add: setPowerLevel_each_returns)
    then show ?thesis using True 2
      by (cases "setPowerLevel_each e (members s)") (simp_all add: fold_state_event_def Let_def)
  next
    case 3
    with True show ?thesis by (simp add: fold_state_event_other)
  qed
qed

lemma fold_state_event_slot_users:
  assumes I: "\<forall>p. getStateEvents s ''m.room.power_levels'' (Some '''') = Event p \<longrightarrow>
                users (getContent p) \<noteq> None"
    and B: "getType e = ''m.room.power_levels'' \<longrightarrow> users (getContent e) \<noteq> None"
  shows "\<forall>p. getStateEvents (store_of (fold_state_event dn s e)) ''m.room.power_levels''
                (Some '''') = Event p \<longrightarrow> users (getContent p) \<noteq> None"
proof (cases "getRoomId e = roomId s \<and> isState e")
  case False
  then show ?thesis using I by (simp add: fold_state_event_skip)
next
  case True
  have "getStateEvents (store_of (fold_state_event dn s e)) ''m.room.power_levels'' (Some '''')
        = getStateEvents (s\<lparr>stateEvents := put_state_event e (stateEvents s)\<rparr>)
            ''m.room.power_levels'' (Some '''')"
    by (rule getStateEvents_cong) (simp add: fold_state_event_stateEvents True)
  then show ?thesis using I B by (auto simp: getStateEvents_put split: if_splits)
qed

subsection \<open>setStateEvents on a batch\<close>

lemma setStateEvents_roomId: "roomId (store_of (setStateEvents dn s evs)) = roomId s"
proof (induction evs arbitrary: s)
  case Nil
  show ?case by simp
next
  case (Cons e es)
  show ?case
  proof (cases "fold_state_event dn s e")
    case (Returned s1)
    then show ?thesis using Cons.IH [of s1] fold_state_event_roomId [of dn s e] by simp
  next
    case (Threw err s1)
    then show ?thesis using fold_state_event_roomId [of dn s e] by simp
  qed
qed

lemma setStateEvents_keys:
  "fst ` set (members s) \<subseteq> fst ` set (members (store_of (setStateEvents dn s evs)))"
proof (induction evs arbitrary: s)
  case Nil
  show ?case by simp
next
  case (Cons e es)
  show ?case
  proof (cases "fold_state_event dn s e")
    case (Returned s1)
    have "fst ` set (members s) \<subseteq> fst ` set (members s1)"
      using fold_state_event_keys [of s dn e] Returned by simp
    also have "\<dots> \<subseteq> fst ` set (members (store_of (setStateEvents dn s1 es)))"
      by (rule Cons.IH)
    finally show ?thesis using Returned by simp
  next
    case (Threw err s1)
    then show ?thesis using fold_state_event_keys [of s dn e] by simp
  qed
qed


lemma setStateEvents_drop_foreign:
  assumes "getRoomId e \<noteq> roomId s"
  shows "setStateEvents dn s (xs @ e # ys) = setStateEvents dn s (xs @ ys)"
  using assms
proof (induction xs arbitrary: s)
  case Nil
  then show ?case by (simp add: fold_state_event_skip)
next
  case (Cons x xs)
  show ?case
  proof (cases "fold_state_event dn s x")
    case (Returned s1)
    have "roomId s1 = roomId s" using fold_state_event_roomId [of dn s x] Returned by simp
    with Cons.prems have "getRoomId e \<noteq> roomId s1" by simp
    then have "setStateEvents dn s1 (xs @ e # ys) = setStateEvents dn s1 (xs @ ys)"
      by (rule Cons.IH)
    then show ?thesis using Returned by simp
  next
    case (Threw err s1)
    then show ?thesis by simp
  qed
qed

text \<open>
  A batch returns when the power-levels event of the slot, if there is one, and every
  power-levels event of the batch have a \<open>users\<close> dictionary.
\<close>

lemma setStateEvents_returns:
  assumes "\<forall>p. getStateEvents s ''m.room.power_levels'' (Some '''') = Event p \<longrightarrow>
             users (getContent p) \<noteq> None"
    and "\<forall>e\<in>set evs. getType e = ''m.room.power_levels'' \<longrightarrow> users (getContent e) \<noteq> None"
  shows "\<not> has_thrown (setStateEvents dn s evs)"
  using assms
proof (induction evs arbitrary: s)
  case Nil
  show ?case by simp
next
  case (Cons e es)
  from Cons.prems(2)
  have B: "getType e = ''m.room.power_levels'' \<longrightarrow> users (getContent e) \<noteq> None"
    by simp
  have "\<not> has_thrown (fold_state_event dn s e)"
    by (rule fold_state_event_returns [OF Cons.prems(1) B])
  then obtain s1 where s1: "fold_state_event dn s e = Returned s1"
    by (cases "fold_state_event dn s e") simp_all
  have "\<forall>p. getStateEvents s1 ''m.room.power_levels'' (Some '''') = Event p \<longrightarrow>
          users (getContent p) \<noteq> None"
    using fold_state_event_slot_users [OF Cons.prems(1) B, of dn] s1 by simp
  then have "\<not> has_thrown (setStateEvents dn s1 es)"
    using Cons.prems(2) by (intro Cons.IH) simp_all
  then show ?case using s1 by simp
qed




text \<open>
  Claim C6: an event of another room, anywhere in a batch, changes nothing. The call with
  the event in the batch has the very outcome of the call with the event left out: the same
  store (members with their power levels and typing flags, state events) and the same
  return or throw. The step for the event itself returns the store untouched.
\<close>

theorem foreign_room_event_ignored:
  assumes "getRoomId e \<noteq> roomId s"
  shows "setStateEvents dn s (xs @ e # ys) = setStateEvents dn s (xs @ ys) \<and>
         fold_state_event dn s e = Returned s"
  using assms by (simp add: setStateEvents_drop_foreign fold_state_event_skip)

theorem foreign_room_event_ignored_witness:
  "setStateEvents key_name (new_RoomState ''!r:x'')
     [member_event ''!r:x'' ''@a:x'' ''join'', member_event ''!other:x'' ''@c:x'' ''join'',
      member_event ''!r:x'' ''@b:x'' ''join'']
   = Returned two_members"
proof -
  let ?e = "member_event ''!other:x'' ''@c:x'' ''join''"
  let ?s = "new_RoomState ''!r:x''"
  have h: "getRoomId ?e \<noteq> roomId ?s" by (simp add: accessor_defs scenario_defs)
  have r: "setStateEvents key_name ?s
     [member_event ''!r:x'' ''@a:x'' ''join'', member_event ''!r:x'' ''@b:x'' ''join'']
     = Returned two_members"
    by (simp add: two_members_eq accessor_defs scenario_defs store_defs)
  from foreign_room_event_ignored [OF h, of key_name "[member_event ''!r:x'' ''@a:x'' ''join'']"
      "[member_event ''!r:x'' ''@b:x'' ''join'']"]
  have "setStateEvents key_name ?s
          ([member_event ''!r:x'' ''@a:x'' ''join''] @ ?e #
             [member_event ''!r:x'' ''@b:x'' ''join''])
        = setStateEvents key_name ?s
          ([member_event ''!r:x'' ''@a:x'' ''join''] @
             [member_event ''!r:x'' ''@b:x'' ''join''])"
    by (rule conjunct1)
  then show ?thesis using r by simp
qed

text \<open>
  Claim C10: the projection needs the \<open>users\<close> field. When the content of a power-levels
  event has none, the projection throws a TypeError for every member; so does the fold of
  that event into a store that has a member (the event is in the index by then, no member
  is changed), and so does the fold of a membership event once that event is the one of the
  power-levels slot. When \<open>users\<close> is there, the projection returns for every member, and
  a batch returns when the slot's power-levels event and those of the batch have \<open>users\<close>.
\<close>

theorem projection_needs_users:
  "(users (getContent pl) = None \<longrightarrow> setPowerLevel pl m = Inl TypeError) \<and>
   (users (getContent pl) = None \<and> getRoomId pl = roomId s \<and> isState pl \<and>
    getType pl = ''m.room.power_levels'' \<and> members s \<noteq> [] \<longrightarrow>
      fold_state_event dn s pl =
        Threw TypeError (s\<lparr>stateEvents := put_state_event pl (stateEvents s)\<rparr>)) \<and>
   (users (getContent pl) = None \<and>
    getStateEvents s ''m.room.power_levels'' (Some '''') = Event pl \<and>
    getRoomId e = roomId s \<and> isState e \<and> getType e = ''m.room.member'' \<longrightarrow>
      (\<exists>s'. fold_state_event dn s e = Threw TypeError s')) \<and>
   (users (getContent pl) \<noteq> None \<longrightarrow> (\<exists>m'. setPowerLevel pl m = Inr m')) \<and>
   ((\<forall>p. getStateEvents s ''m.room.power_levels'' (Some '''') = Event p \<longrightarrow>
          users (getContent p) \<noteq> None) \<and>
    (\<forall>ev\<in>set evs. getType ev = ''m.room.power_levels'' \<longrightarrow> users (getContent ev) \<noteq> None)
    \<longrightarrow> \<not> has_thrown (setStateEvents dn s evs))"
proof (intro conjI impI)
  assume "users (getContent pl) = None"
  then show "setPowerLevel pl m = Inl TypeError" by (rule setPowerLevel_no_users)
next
  assume "users (getContent pl) = None \<and> getRoomId pl = roomId s \<and> isState pl \<and>
    getType pl = ''m.room.power_levels'' \<and> members s \<noteq> []"
  then show "fold_state_event dn s pl =
        Threw TypeError (s\<lparr>stateEvents := put_state_event pl (stateEvents s)\<rparr>)"
    by (simp add: power_levels_fold_throws)
next
  assume "users (getContent pl) = None \<and>
    getStateEvents s ''m.room.power_levels'' (Some '''') = Event pl \<and>
    getRoomId e = roomId s \<and> isState e \<and> getType e = ''m.room.member''"
  then show "\<exists>s'. fold_state_event dn s e = Threw TypeError s'"
    using member_fold_throws [of pl s e dn] by blast
next
  assume "users (getContent pl) \<noteq> None"
  then obtain us where "users (getContent pl) = Some us" by blast
  then show "\<exists>m'. setPowerLevel pl m = Inr m'"
    using setPowerLevel_users [of pl us m] by blast
next
  assume "(\<forall>p. getStateEvents s ''m.room.power_levels'' (Some '''') = Event p \<longrightarrow>
          users (getContent p) \<noteq> None) \<and>
    (\<forall>ev\<in>set evs. getType ev = ''m.room.power_levels'' \<longrightarrow> users (getContent ev) \<noteq> None)"
  then show "\<not> has_thrown (setStateEvents dn s evs)"
    by (simp add: setStateEvents_returns)
qed

theorem projection_needs_users_witness:
  "has_thrown (setStateEvents key_name two_members [bare_power_levels]) \<and>
   \<not> has_thrown (setStateEvents key_name (new_RoomState ''!r:x'') [bare_power_levels]) \<and>
   has_thrown (setStateEvents key_name (new_RoomState ''!r:x'')
      [bare_power_levels, member_event ''!r:x'' ''@a:x'' ''join'']) \<and>
   \<not> has_thrown (setStateEvents key_name two_members
      [state_event ''!r:x'' ''m.room.power_levels'' '''' (content_of (Some []) None Absent),
       member_event ''!r:x'' ''@a:x'' ''join''])"
proof -
  let ?pl = bare_power_levels
  let ?ok = "state_event ''!r:x'' ''m.room.power_levels'' '''' (content_of (Some []) None Absent)"
  let ?e = "member_event ''!r:x'' ''@a:x'' ''join''"
  let ?m = "new_RoomMember ?e"
  let ?s0 = "new_RoomState ''!r:x''"
  let ?s1 = "?s0\<lparr>stateEvents := put_state_event ?pl (stateEvents ?s0)\<rparr>"
  have a: "users (getContent ?pl) = None \<and> getRoomId ?pl = roomId two_members \<and> isState ?pl \<and>
      getType ?pl = ''m.room.power_levels'' \<and> members two_members \<noteq> []"
    by (simp add: bare_power_levels_def two_members_eq accessor_defs scenario_defs)
  have b: "fold_state_event key_name ?s0 ?pl = Returned ?s1"
    by (simp add: bare_power_levels_def accessor_defs scenario_defs fold_state_event_def Let_def)
  have c: "users (getContent ?pl) = None \<and>
      getStateEvents ?s1 ''m.room.power_levels'' (Some '''') = Event ?pl \<and>
      getRoomId ?e = roomId ?s1 \<and> isState ?e \<and> getType ?e = ''m.room.member''"
    by (simp add: bare_power_levels_def accessor_defs scenario_defs store_defs)
  have d: "(\<forall>p. getStateEvents two_members ''m.room.power_levels'' (Some '''') = Event p \<longrightarrow>
          users (getContent p) \<noteq> None) \<and>
      (\<forall>ev\<in>set [?ok, ?e]. getType ev = ''m.room.power_levels'' \<longrightarrow>
          users (getContent ev) \<noteq> None)"
    by (simp add: two_members_eq accessor_defs scenario_defs store_defs)
  from projection_needs_users [of ?pl ?m two_members key_name ?e "[?ok, ?e]"] a d
  have 1: "has_thrown (setStateEvents key_name two_members [?pl])"
    and 4: "\<not> has_thrown (setStateEvents key_name two_members [?ok, ?e])"
    by simp_all
  from projection_needs_users [of ?pl ?m ?s1 key_name ?e "[]"] c
  obtain s' where "fold_state_event key_name ?s1 ?e = Threw TypeError s'" by blast
  then have 3: "has_thrown (setStateEvents key_name ?s0 [?pl, ?e])" using b by simp
  have 2: "\<not> has_thrown (setStateEvents key_name ?s0 [?pl])" using b by simp
  show ?thesis using 1 2 3 4 by blast
qed

subsection \<open>Sequences of calls\<close>

lemma setTypingEvent_roomId: "roomId (store_of (setTypingEvent s e)) = roomId s"
  by (cases "user_ids (getContent e)") (simp_all add: setTypingEvent_def Let_def)

lemma setTypingEvent_keys:
  "fst ` set (members (store_of (setTypingEvent s e))) = fst ` set (members s)"
proof (cases "getType e = ''m.typing''")
  case False
  then show ?thesis by (simp add: setTypingEvent_def)
next
  case True
  have k: "fst ` set (reset_typing ms) = fst ` set ms" for ms
    using keys_reset_typing [of ms] by (metis set_map)
  show ?thesis
    by (cases "user_ids (getContent e)")
       (simp_all add: setTypingEvent_typing [OF True] k keys_mark_typing)
qed

lemma call_store_roomId: "roomId (call_store dn s c) = roomId s"
  by (cases c) (simp_all add: setStateEvents_roomId setTypingEvent_roomId)

lemma call_store_keys:
  "fst ` set (members s) \<subseteq> fst ` set (members (call_store dn s c))"
  by (cases c) (simp_all add: setStateEvents_keys setTypingEvent_keys)

lemma run_calls_roomId: "roomId (run_calls dn s calls) = roomId s"
  unfolding run_calls_def
  by (induction calls arbitrary: s) (simp_all add: call_store_roomId)

lemma run_calls_append: "run_calls dn s (xs @ ys) = run_calls dn (run_calls dn s xs) ys"
  by (simp add: run_calls_def)

lemma run_calls_Cons: "run_calls dn s (c # cs) = run_calls dn (call_store dn s c) cs"
  by (simp add: run_calls_def)

lemma run_calls_keys:
  "fst ` set (members s) \<subseteq> fst ` set (members (run_calls dn s calls))"
  unfolding run_calls_def
proof (induction calls arbitrary: s)
  case Nil
  show ?case by simp
next
  case (Cons c cs)
  have "fst ` set (members s) \<subseteq> fst ` set (members (call_store dn s c))"
    by (rule call_store_keys)
  also have "\<dots> \<subseteq> fst ` set (members (foldl (call_store dn) (call_store dn s c) cs))"
    by (rule Cons.IH)
  finally show ?case by simp
qed

lemma member_fold_key:
  assumes "getRoomId e = roomId s" "isState e" "getType e = ''m.room.member''"
  shows "prop_key (getStateKey e) \<in> fst ` set (members (store_of (setStateEvents dn s [e])))"
proof -
  have "store_of (setStateEvents dn s [e]) = store_of (fold_state_event dn s e)"
    by (cases "fold_state_event dn s e") simp_all
  then show ?thesis using fold_state_event_member_keys [OF assms, of dn] by simp
qed

text \<open>
  Claim C8: no call removes a member. After any sequence of \<open>setStateEvents\<close> and
  \<open>setTypingEvent\<close> calls, returned or thrown, every user identifier that was a key of
  \<open>members\<close> still is one. And once a membership event of this room for the state key
  \<open>uid\<close> has been folded, whatever its content (a "leave" as well), \<open>members\<close> has an entry
  for \<open>uid\<close>, after that call and after every later call.
\<close>

theorem members_never_removed:
  "fst ` set (members s) \<subseteq> fst ` set (members (run_calls dn s calls)) \<and>
   (getRoomId e = roomId s \<and> getStateKey e = Some uid \<and> getType e = ''m.room.member'' \<longrightarrow>
      map_of (members (run_calls dn s (before @ SetStateEvents [e] # after))) uid \<noteq> None)"
proof -
  have "map_of (members (run_calls dn s (before @ SetStateEvents [e] # after))) uid \<noteq> None"
    if acc: "getRoomId e = roomId s" "getStateKey e = Some uid" "getType e = ''m.room.member''"
  proof -
    let ?s1 = "run_calls dn s before"
    let ?s2 = "call_store dn ?s1 (SetStateEvents [e])"
    have "getRoomId e = roomId ?s1" using acc(1) by (simp add: run_calls_roomId)
    moreover have "isState e" using acc(2) by (simp add: isState_def getStateKey_def)
    ultimately have "prop_key (getStateKey e) \<in> fst ` set (members ?s2)"
      using acc(3) member_fold_key [of e ?s1 dn] by simp
    then have "uid \<in> fst ` set (members ?s2)" using acc(2) by simp
    also have "\<dots> \<subseteq> fst ` set (members (run_calls dn ?s2 after))" by (rule run_calls_keys)
    finally have "uid \<in> fst ` set
        (members (run_calls dn s (before @ SetStateEvents [e] # after)))"
      by (simp add: run_calls_append run_calls_Cons)
    then show ?thesis by (simp add: map_of_eq_None_iff)
  qed
  then show ?thesis using run_calls_keys [of s dn calls] by blast
qed

theorem members_never_removed_witness:
  "map_of (members (run_calls key_name two_members
      [SetStateEvents [member_event ''!r:x'' ''@a:x'' ''leave''],
       SetTypingEvent (typing_event ''!r:x'' (Ids [''@b:x'']))])) ''@a:x'' \<noteq> None"
proof -
  let ?e = "member_event ''!r:x'' ''@a:x'' ''leave''"
  have h: "getRoomId ?e = roomId two_members \<and> getStateKey ?e = Some ''@a:x''
             \<and> getType ?e = ''m.room.member''"
    by (simp add: two_members_eq accessor_defs scenario_defs)
  from members_never_removed [of two_members key_name "[]" ?e "''@a:x''" "[]"
      "[SetTypingEvent (typing_event ''!r:x'' (Ids [''@b:x'']))]"] h
  show ?thesis by simp
qed

subsection \<open>Members are stored under their user identifier\<close>

text \<open>
  The fold stores a member under the state key it took as the member's \<open>userId\<close>, and no
  call changes a \<open>userId\<close>: every store reached from a new one keeps every member under
  its own identifier.
\<close>

lemma keyed_update:
  assumes "keyed_by_userId ms" "userId m = k"
  shows "keyed_by_userId (AList.update k m ms)"
  using assms by (induction ms) (auto simp: keyed_by_userId_def)

lemma setPowerLevel_userId: "setPowerLevel pl m = Inr m' \<Longrightarrow> userId m' = userId m"
  by (auto simp: setPowerLevel_def Let_def split: option.splits if_splits)

lemma keyed_setPowerLevel_each:
  assumes "keyed_by_userId ms"
  shows "keyed_by_userId (store_of (setPowerLevel_each ev ms))"
  using assms
proof (induction ms)
  case Nil
  show ?case by (simp add: keyed_by_userId_def)
next
  case (Cons km ms)
  obtain k m where km: "km = (k, m)" by (cases km)
  from Cons.prems km have k: "userId m = k" and rest: "keyed_by_userId ms"
    by (simp_all add: keyed_by_userId_def)
  have IH: "keyed_by_userId (store_of (setPowerLevel_each ev ms))" by (rule Cons.IH [OF rest])
  show ?case
  proof (cases "setPowerLevel ev m")
    case (Inl err)
    then show ?thesis using Cons.prems km by simp
  next
    case (Inr m')
    then have "userId m' = k" using k setPowerLevel_userId by simp
    then show ?thesis using Inr IH km
      by (cases "setPowerLevel_each ev ms") (simp_all add: keyed_by_userId_def)
  qed
qed

lemma keyed_reset_typing: "keyed_by_userId ms \<Longrightarrow> keyed_by_userId (reset_typing ms)"
  by (auto simp: keyed_by_userId_def reset_typing_def)

lemma keyed_map_entry:
  assumes "keyed_by_userId ms" "\<And>m. userId (f m) = userId m"
  shows "keyed_by_userId (AList.map_entry k f ms)"
  using assms by (induction ms) (auto simp: keyed_by_userId_def)

lemma keyed_mark_typing: "keyed_by_userId ms \<Longrightarrow> keyed_by_userId (mark_typing ms uids)"
  by (induction uids arbitrary: ms) (simp_all add: keyed_map_entry)

lemma keyed_setTypingEvent:
  assumes "keyed_by_userId (members s)"
  shows "keyed_by_userId (members (store_of (setTypingEvent s e)))"
proof (cases "getType e = ''m.typing''")
  case False
  then show ?thesis using assms by (simp add: setTypingEvent_def)
next
  case True
  show ?thesis using assms
    by (cases "user_ids (getContent e)")
       (simp_all add: setTypingEvent_typing [OF True] keyed_reset_typing keyed_mark_typing)
qed

lemma keyed_fold_state_event:
  assumes "keyed_by_userId (members s)"
  shows "keyed_by_userId (members (store_of (fold_state_event dn s e)))"
proof (cases "getRoomId e = roomId s \<and> isState e")
  case False
  then show ?thesis using assms by (simp add: fold_state_event_skip)
next
  case True
  consider "getType e = ''m.room.member''" | "getType e = ''m.room.power_levels''"
    | "getType e \<noteq> ''m.room.member''" "getType e \<noteq> ''m.room.power_levels''"
    by blast
  then show ?thesis
  proof cases
    case 1
    let ?k = "prop_key (getStateKey e)"
    let ?m = "calculateDisplayName dn e
                (s\<lparr>stateEvents := put_state_event e (stateEvents s)\<rparr>) (new_RoomMember e)"
    have u: "userId ?m = ?k" by (simp add: calculateDisplayName_def new_RoomMember_def)
    have k1: "keyed_by_userId (AList.update ?k ?m (members s))"
      by (rule keyed_update [OF assms u])
    have k2: "keyed_by_userId (AList.update ?k m' (AList.update ?k ?m (members s)))"
      if "setPowerLevel p ?m = Inr m'" for p m'
      using that setPowerLevel_userId [of p ?m m'] u by (intro keyed_update k1) simp
    show ?thesis using True 1 k1 k2
      by (simp add: fold_state_event_def Let_def split: query_result.splits sum.splits)
  next
    case 2
    have "members (store_of (fold_state_event dn s e)) =
            store_of (setPowerLevel_each e (members s))"
      using True 2 by (simp add: fold_state_event_def Let_def split: outcome.splits)
    then show ?thesis using assms by (simp add: keyed_setPowerLevel_each)
  next
    case 3
    with True show ?thesis using assms by (simp add: fold_state_event_other)
  qed
qed

lemma keyed_setStateEvents:
  assumes "keyed_by_userId (members s)"
  shows "keyed_by_userId (members (store_of (setStateEvents dn s evs)))"
  using assms
proof (induction evs arbitrary: s)
  case Nil
  then show ?case by simp
next
  case (Cons e es)
  have k: "keyed_by_userId (members (store_of (fold_state_event dn s e)))"
    by (rule keyed_fold_state_event [OF Cons.prems])
  show ?case
  proof (cases "fold_state_event dn s e")
    case (Returned s1)
    then show ?thesis using k Cons.IH [of s1] by simp
  next
    case (Threw err s1)
    then show ?thesis using k by simp
  qed
qed

lemma keyed_run_calls:
  assumes "keyed_by_userId (members s)"
  shows "keyed_by_userId (members (run_calls dn s calls))"
  using assms unfolding run_calls_def
proof (induction calls arbitrary: s)
  case Nil
  then show ?case by simp
next
  case (Cons c cs)
  have "keyed_by_userId (members (call_store dn s c))"
    using Cons.prems by (cases c) (simp_all add: keyed_setStateEvents keyed_setTypingEvent)
  then show ?case using Cons.IH by simp
qed

lemma keyed_reachable:
  "keyed_by_userId (members (run_calls dn (new_RoomState rid) calls))"
  by (rule keyed_run_calls) (simp add: keyed_by_userId_def new_RoomState_def)

subsection \<open>Scenarios of the specification\<close>

text \<open>
  E1: the power-levels event with \<open>users = {"@a:x": 100}\<close> and \<open>users_default = 0\<close>, then
  the membership of \<open>@a:x\<close>. E2: both members first, then levels 50 and 100. E3: a typing
  event naming \<open>@a:x\<close> alone.
\<close>

lemma scenario_E1:
  "map_of (members (store_of (setStateEvents key_name (new_RoomState ''!r:x'')
      [state_event ''!r:x'' ''m.room.power_levels'' ''''
         (content_of (Some [(''@a:x'', 100)]) (Some 0) Absent),
       member_event ''!r:x'' ''@a:x'' ''join'']))) ''@a:x''
   = Some \<lparr>userId = ''@a:x'', displayName = ''@a:x'', typing = False,
            powerLevel = 100, powerLevelNorm = Finite 100\<rparr>"
  by (simp add: accessor_defs scenario_defs store_defs js_times_def round_double_numeral)

lemma scenario_E2:
  "map (\<lambda>(k, m). (k, powerLevelNorm m))
     (members (store_of (setStateEvents key_name two_members
        [state_event ''!r:x'' ''m.room.power_levels'' ''''
           (content_of (Some [(''@a:x'', 50), (''@b:x'', 100)]) (Some 0) Absent)])))
   = [(''@a:x'', Finite 50), (''@b:x'', Finite 100)]"
  by (simp add: two_members_eq accessor_defs scenario_defs store_defs js_times_def
        round_double_numeral)

lemma scenario_E3:
  "map (\<lambda>(k, m). (k, typing m))
     (members (store_of (setTypingEvent two_members (typing_event ''!r:x'' (Ids [''@a:x''])))))
   = [(''@a:x'', True), (''@b:x'', False)]"
  by (simp add: two_members_eq accessor_defs scenario_defs store_defs)

end
